theory Spec2Isabelle
  imports Complex_Main "HOL-Library.Sublist"
begin

section \<open>Text cleaning and permutation importance of the course notebooks\<close>

text \<open>
  The notebooks work on Python strings. A string is modelled as a \<^typ>\<open>string\<close>, a list of
  characters whose code points lie below 256 (\<^typ>\<open>char\<close> has exactly these values), so the
  model covers every Python string over the Latin-1 range, ASCII included. On this range
  the library functions used by \<open>clean\<close> behave as written out below.
\<close>

subsection \<open>Character classes of the Python library\<close>

text \<open>
  \<open>str.split()\<close> without arguments cuts at the characters for which \<open>str.isspace\<close> holds.
  Below 256 these are tab, line feed, vertical tab, form feed, carriage return, the four
  separators 28 to 31, the space, NEL (133) and the no-break space (160).
\<close>

definition isspace :: "char \<Rightarrow> bool" where
  "isspace c = (of_char c \<in> {9, 10, 11, 12, 13, 28, 29, 30, 31, 32, 133, 160 :: nat})"

text \<open>The character class \<open>[a-zA-Z]\<close> of the regular expression: ASCII letters only.\<close>

definition ascii_letter :: "char \<Rightarrow> bool" where
  "ascii_letter c =
     (let n = of_char c :: nat in (97 \<le> n \<and> n \<le> 122) \<or> (65 \<le> n \<and> n \<le> 90))"

text \<open>
  \<open>str.lower()\<close> on one character of the range: the ASCII capitals and the Latin-1 capitals
  (192 to 222 without the multiplication sign 215) move up by 32, everything else stays.
\<close>

definition lower_char :: "char \<Rightarrow> char" where
  "lower_char c =
     (let n = of_char c :: nat
      in if (65 \<le> n \<and> n \<le> 90) \<or> (192 \<le> n \<and> n \<le> 222 \<and> n \<noteq> 215)
         then char_of (n + 32) else c)"

definition lower :: "string \<Rightarrow> string" where
  "lower s = map lower_char s"

subsection \<open>Substitution of a literal pattern\<close>

text \<open>
  \<open>re.sub(pat, rep, s)\<close> for a pattern without metacharacters and \<open>s.replace(pat, rep)\<close>
  do the same: scan from the left, replace an occurrence where one starts, and go on behind
  it, so that replaced occurrences never overlap and the replacement is not scanned again.
  Both calls in \<open>clean\<close> have a non-empty pattern.
\<close>

function replace_literal :: "string \<Rightarrow> string \<Rightarrow> string \<Rightarrow> string" where
  "replace_literal pat rep [] = []"
| "replace_literal pat rep (c # cs) =
     (if pat \<noteq> [] \<and> prefix pat (c # cs)
      then rep @ replace_literal pat rep (drop (length pat) (c # cs))
      else c # replace_literal pat rep cs)"
  by pat_completeness auto
termination
  by (relation "measure (\<lambda>(pat, rep, s). length s)") (auto simp: neq_Nil_conv)

subsection \<open>Substitution of a slash between two letters\<close>

text \<open>
  \<open>re.sub('(?<=[a-zA-Z])/(?=[a-zA-Z])', ' or ', s)\<close>: the two assertions look at the
  characters of the subject string next to the slash and consume nothing. The first
  argument says whether the character before the rest of the string is a letter; at the
  start of the string there is none.
\<close>

fun sub_slash :: "bool \<Rightarrow> string \<Rightarrow> string" where
  "sub_slash p [] = []"
| "sub_slash p (c # cs) =
     (if c = CHR ''/'' \<and> p \<and> (case cs of [] \<Rightarrow> False | d # _ \<Rightarrow> ascii_letter d)
      then '' or '' @ sub_slash False cs
      else c # sub_slash (ascii_letter c) cs)"

subsection \<open>Spacing of the punctuation\<close>

text \<open>
  \<open>str.maketrans({key: f"{key} " for key in ".,"})\<close> maps the period to a period and a
  space, the comma to a comma and a space; \<open>translate\<close> leaves every other character alone.
\<close>

definition punctuation_spacer :: "char \<Rightarrow> string" where
  "punctuation_spacer c = (if c = CHR ''.'' \<or> c = CHR '','' then [c, CHR '' ''] else [c])"

definition translate :: "string \<Rightarrow> string" where
  "translate s = concat (map punctuation_spacer s)"

subsection \<open>Splitting at whitespace and joining with one space\<close>

text \<open>
  \<open>s.split()\<close>: skip the whitespace, take the characters up to the next whitespace as
  one word, and repeat; no word is empty.
\<close>

function str_split :: "string \<Rightarrow> string list" where
  "str_split s =
     (let t = dropWhile isspace s
      in if t = [] then []
         else takeWhile (\<lambda>c. \<not> isspace c) t # str_split (dropWhile (\<lambda>c. \<not> isspace c) t))"
  by pat_completeness auto
termination
proof (relation "measure length", goal_cases)
  case 1
  show ?case by simp
next
  case (2 s t)
  then obtain c cs where t: "dropWhile isspace s = c # cs"
    by (cases "dropWhile isspace s") auto
  then have "\<not> isspace c"
    using hd_dropWhile [of isspace s] by auto
  then have "length (dropWhile (\<lambda>c. \<not> isspace c) (c # cs)) \<le> length cs"
    by (simp add: length_dropWhile_le)
  moreover have "length (c # cs) \<le> length s"
    using t length_dropWhile_le [of isspace s] by simp
  ultimately show ?case
    using 2 t by simp
qed

text \<open>\<open>' '.join(ws)\<close>: the words with one space between neighbours.\<close>

fun str_join :: "string list \<Rightarrow> string" where
  "str_join [] = []"
| "str_join [w] = w"
| "str_join (w # v # ws) = w @ CHR '' '' # str_join (v # ws)"

subsection \<open>The function \<open>clean\<close>, as defined in the two notebooks\<close>

text \<open>The definition of the text-cleaning notebook.\<close>

definition clean :: "string \<Rightarrow> string" where
  "clean sentence =
     (let lower_sentence = lower sentence;
          corrected_sentence = replace_literal ''and/or'' ''or'' lower_sentence;
          corrected_sentence = sub_slash False corrected_sentence;
          clean_sentence = replace_literal ''..'' ''.'' corrected_sentence;
          clean_sentence = translate clean_sentence;
          clean_sentence = str_join (str_split clean_sentence)
      in clean_sentence)"

text \<open>The definition of the BioC and NegBio notebook, which writes the function out again.\<close>

definition clean_negbio :: "string \<Rightarrow> string" where
  "clean_negbio sentence =
     (let lower_sentence = lower sentence;
          corrected_sentence = replace_literal ''and/or'' ''or'' lower_sentence;
          corrected_sentence = sub_slash False corrected_sentence;
          clean_sentence = replace_literal ''..'' ''.'' corrected_sentence;
          clean_sentence = translate clean_sentence;
          clean_sentence = str_join (str_split clean_sentence)
      in clean_sentence)"

subsection \<open>Permutation importance\<close>

text \<open>
  No function of the sources computes the permutation importance. The permutation
  notebook calls \<open>cindex\<close> (from \<open>util\<close>, which is not among the sources) once for each
  dataset, prints each concordance index, and gives the importance only as a formula in
  its prose, \<open>I = |perf - perf_x|\<close> with \<open>perf_x\<close> the mean of the indices of the \<open>n\<close>
  shuffled datasets. The two definitions below are therefore written from the
  specification. The indices are exact rationals, as the four-digit decimals of the
  notebook are read; the binary floating point of Python is not modelled.
\<close>

text \<open>
  Modelled from the spec: the mean of the shuffled concordance indices ("the mean of the
  shuffled concordance-indices", over the \<open>n\<close> repetitions). Missing from the sources: any
  code that averages the indices. With no repetition there is no mean.
\<close>

definition mean :: "rat list \<Rightarrow> rat option" where
  "mean perfs = (if perfs = [] then None else Some (sum_list perfs / of_nat (length perfs)))"

text \<open>
  Modelled from the spec: the reported importance ("report the absolute difference between
  baseline concordance-index and the mean of the shuffled concordance-indices"). Missing
  from the sources: the function that reports it.
\<close>

definition importance :: "rat \<Rightarrow> rat list \<Rightarrow> rat option" where
  "importance perf perfs =
     (case mean perfs of None \<Rightarrow> None | Some perf_x \<Rightarrow> Some \<bar>perf - perf_x\<bar>)"

subsection \<open>Predicates and abbreviations used in the proofs\<close>

text \<open>
  A string is \<open>tight\<close> when each of its whitespace characters is a space that is followed
  by a character which is not whitespace; \<open>punct_spaced\<close> when each period and comma is
  followed by a space or ends the string; \<open>flank p s\<close> says that some slash of \<open>s\<close> stands
  between two ASCII letters, \<open>p\<close> telling whether a letter precedes \<open>s\<close>. \<open>stages\<close> names the first five steps of
  \<open>clean\<close>, everything before the final split and join.
\<close>

fun tight :: "string \<Rightarrow> bool" where
  "tight [] = True"
| "tight [c] = (\<not> isspace c)"
| "tight (c # d # r) = ((\<not> isspace c \<or> (c = CHR '' '' \<and> \<not> isspace d)) \<and> tight (d # r))"

fun punct_spaced :: "string \<Rightarrow> bool" where
  "punct_spaced [] = True"
| "punct_spaced [c] = True"
| "punct_spaced (c # d # r) =
     (((c \<noteq> CHR ''.'' \<and> c \<noteq> CHR '','') \<or> d = CHR '' '') \<and> punct_spaced (d # r))"

fun flank :: "bool \<Rightarrow> string \<Rightarrow> bool" where
  "flank p [] = False"
| "flank p (c # cs) =
     ((c = CHR ''/'' \<and> p \<and> (case cs of [] \<Rightarrow> False | d # _ \<Rightarrow> ascii_letter d))
      \<or> flank (ascii_letter c) cs)"

definition stages :: "string \<Rightarrow> string" where
  "stages s = translate (replace_literal ''..'' ''.''
     (sub_slash False (replace_literal ''and/or'' ''or'' (lower s))))"

text \<open>The recursive equations are unfolded by hand where a proof needs them.\<close>

declare str_split.simps [simp del]
declare replace_literal.simps(2) [simp del]

section \<open>Properties\<close>


subsection \<open>Facts about the character classes\<close>

lemma of_char_lower_char:
  "of_char (lower_char c) = (let n = of_char c :: nat
      in if (65 \<le> n \<and> n \<le> 90) \<or> (192 \<le> n \<and> n \<le> 222 \<and> n \<noteq> 215) then n + 32 else n)"
  by (auto simp: lower_char_def Let_def)

lemma isspace_lower_char [simp]: "isspace (lower_char c) = isspace c"
  unfolding isspace_def of_char_lower_char by (auto simp: Let_def)

lemma ascii_letter_lower_char [simp]: "ascii_letter (lower_char c) = ascii_letter c"
  unfolding ascii_letter_def of_char_lower_char by (auto simp: Let_def)

lemma lower_char_idem [simp]: "lower_char (lower_char c) = lower_char c"
proof -
  have "(of_char (lower_char (lower_char c)) :: nat) = of_char (lower_char c)"
    unfolding of_char_lower_char [of "lower_char c"] by (auto simp: of_char_lower_char Let_def)
  then show ?thesis by (metis char_of_char)
qed

lemma isspace_simps [simp]:
  "isspace CHR '' ''" "\<not> isspace CHR ''.''" "\<not> isspace CHR '',''" "\<not> isspace CHR ''/''"
  "\<not> isspace CHR ''o''" "\<not> isspace CHR ''r''"
  by (simp_all add: isspace_def)

lemma ascii_letter_simps [simp]:
  "\<not> ascii_letter CHR '' ''" "\<not> ascii_letter CHR ''.''" "\<not> ascii_letter CHR '',''"
  "\<not> ascii_letter CHR ''/''" "ascii_letter CHR ''o''" "ascii_letter CHR ''r''"
  "ascii_letter CHR ''a''" "ascii_letter CHR ''n''" "ascii_letter CHR ''d''"
  by (simp_all add: ascii_letter_def)

lemma isspace_not_letter: "isspace c \<Longrightarrow> \<not> ascii_letter c"
  by (auto simp: isspace_def ascii_letter_def)

lemma lower_char_fix_nonletter: "lower_char c = d \<Longrightarrow> of_char d < (97::nat) \<Longrightarrow> c = d"
  by (auto simp: lower_char_def Let_def split: if_splits)

lemma lower_char_eq_simps [simp]:
  "lower_char c = CHR ''.'' \<longleftrightarrow> c = CHR ''.''"
  "lower_char c = CHR '','' \<longleftrightarrow> c = CHR '',''"
  "lower_char c = CHR ''/'' \<longleftrightarrow> c = CHR ''/''"
  "lower_char c = CHR '' '' \<longleftrightarrow> c = CHR '' ''"
  using lower_char_fix_nonletter [of c "CHR ''.''"] lower_char_fix_nonletter [of c "CHR '',''"]
    lower_char_fix_nonletter [of c "CHR ''/''"] lower_char_fix_nonletter [of c "CHR '' ''"]
  by (auto simp: lower_char_def)

lemma lower_char_isspace: "isspace c \<Longrightarrow> lower_char c = c"
  by (auto simp: isspace_def lower_char_def)

subsection \<open>Splitting and joining\<close>

lemma str_split_Nil [simp]: "str_split [] = []"
  by (simp add: str_split.simps)

lemma str_split_space [simp]: "isspace c \<Longrightarrow> str_split (c # cs) = str_split cs"
  by (subst str_split.simps, subst (2) str_split.simps) simp

lemma str_split_word:
  "\<not> isspace c \<Longrightarrow>
   str_split (c # cs) = (c # takeWhile (\<lambda>c. \<not> isspace c) cs) # str_split (dropWhile (\<lambda>c. \<not> isspace c) cs)"
  by (subst str_split.simps) simp

lemma str_split_nonempty: "\<not> isspace c \<Longrightarrow> str_split (c # cs) \<noteq> []"
  by (simp add: str_split_word)

lemma str_split_letter:
  "\<not> isspace c \<Longrightarrow>
   str_split (c # cs) =
     (if cs = [] \<or> isspace (hd cs) then [c] # str_split cs
      else (c # hd (str_split cs)) # tl (str_split cs))"
  by (cases cs) (auto simp: str_split_word)

lemma str_split_words: "w \<in> set (str_split s) \<Longrightarrow> w \<noteq> [] \<and> (\<forall>c \<in> set w. \<not> isspace c)"
proof (induction s arbitrary: w)
  case Nil
  then show ?case by simp
next
  case (Cons c cs)
  show ?case
  proof (cases "isspace c")
    case True
    with Cons show ?thesis by simp
  next
    case False
    show ?thesis
    proof (cases "cs = [] \<or> isspace (hd cs)")
      case True
      with Cons False show ?thesis by (auto simp: str_split_letter)
    next
      case nl: False
      then obtain d ds where cs: "cs = d # ds" and d: "\<not> isspace d"
        by (cases cs) auto
      then obtain v vs where v: "str_split cs = v # vs"
        using str_split_nonempty [of d ds] by (cases "str_split cs") auto
      have "w = c # v \<or> w \<in> set vs"
        using Cons.prems False nl v by (simp add: str_split_letter)
      then show ?thesis
        using Cons.IH [of v] Cons.IH [of w] v False by auto
    qed
  qed
qed

lemma str_join_Cons_Cons: "str_join ((c # w) # ws) = c # str_join (w # ws)"
  by (cases ws) simp_all

lemma str_join_single: "str_join ([c] # ws) = c # (if ws = [] then [] else CHR '' '' # str_join ws)"
  by (cases ws) simp_all

lemma str_join_eq_Nil: "\<forall>w \<in> set ws. w \<noteq> [] \<Longrightarrow> str_join ws = [] \<longleftrightarrow> ws = []"
  by (induction ws rule: str_join.induct) auto

lemma join_split_eq_Nil: "str_join (str_split s) = [] \<longleftrightarrow> str_split s = []"
  by (rule str_join_eq_Nil) (auto dest: str_split_words)

lemma join_split_Nil [simp]: "str_join (str_split []) = []"
  by simp

lemma join_split_space [simp]: "isspace c \<Longrightarrow> str_join (str_split (c # cs)) = str_join (str_split cs)"
  by simp

lemma join_split_letter:
  "\<not> isspace c \<Longrightarrow>
   str_join (str_split (c # cs)) =
     c # (if cs = [] then []
          else if isspace (hd cs)
               then (if str_join (str_split cs) = [] then [] else CHR '' '' # str_join (str_split cs))
               else str_join (str_split cs))"
proof (cases cs)
  case Nil
  assume "\<not> isspace c"
  then show ?thesis using Nil by (simp add: str_split_letter)
next
  case (Cons d ds)
  assume c: "\<not> isspace c"
  show ?thesis
  proof (cases "isspace d")
    case True
    then show ?thesis using c Cons
      by (simp add: str_split_letter str_join_single join_split_eq_Nil [of ds])
  next
    case False
    then obtain w ws where "str_split (d # ds) = w # ws"
      using str_split_nonempty [of d ds] by (cases "str_split (d # ds)") auto
    then show ?thesis using c Cons False
      by (simp add: str_split_letter str_join_Cons_Cons)
  qed
qed

lemma tight_Cons:
  "tight (c # t) = ((if isspace c then c = CHR '' '' \<and> t \<noteq> [] \<and> \<not> isspace (hd t) else True)
     \<and> (t = [] \<or> tight t))"
  by (cases t) auto

lemma hd_join_split:
  "str_join (str_split t) \<noteq> [] \<Longrightarrow> \<not> isspace (hd (str_join (str_split t)))"
proof (induction t)
  case Nil
  then show ?case by simp
next
  case (Cons c cs)
  then show ?case by (cases "isspace c") (auto simp: join_split_letter)
qed

lemma tight_join_split: "tight (str_join (str_split t))"
proof (induction t)
  case Nil
  show ?case by simp
next
  case (Cons c cs)
  show ?case
  proof (cases "isspace c")
    case True
    with Cons show ?thesis by simp
  next
    case False
    with Cons show ?thesis
      by (simp add: join_split_letter tight_Cons hd_join_split)
  qed
qed

lemma tight_set: "tight t \<Longrightarrow> c \<in> set t \<Longrightarrow> isspace c \<Longrightarrow> c = CHR '' ''"
  by (induction t rule: tight.induct) auto

lemma tight_last: "tight t \<Longrightarrow> t \<noteq> [] \<Longrightarrow> \<not> isspace (last t)"
  by (induction t rule: tight.induct) auto

lemma tight_nth: "tight t \<Longrightarrow> Suc i < length t \<Longrightarrow> \<not> (isspace (t ! i) \<and> isspace (t ! Suc i))"
proof (induction t arbitrary: i rule: tight.induct)
  case (3 c d r)
  then show ?case by (cases i) auto
qed auto

lemma punct_spaced_Cons:
  "punct_spaced (c # t) =
     ((c \<noteq> CHR ''.'' \<and> c \<noteq> CHR '','' \<or> t = [] \<or> hd t = CHR '' '') \<and> punct_spaced t)"
  by (cases t) auto

lemma translate_Nil [simp]: "translate [] = []"
  by (simp add: translate_def)

lemma translate_Cons: "translate (c # cs) = punctuation_spacer c @ translate cs"
  by (simp add: translate_def)

lemma translate_append: "translate (x @ y) = translate x @ translate y"
  by (simp add: translate_def)

lemma punct_spaced_translate: "punct_spaced (translate t)"
  by (induction t) (auto simp: translate_Cons punctuation_spacer_def punct_spaced_Cons)

lemma punct_spaced_join_split: "punct_spaced t \<Longrightarrow> punct_spaced (str_join (str_split t))"
proof (induction t)
  case Nil
  show ?case by simp
next
  case (Cons c cs)
  show ?case
  proof (cases "isspace c")
    case True
    with Cons show ?thesis by (simp add: punct_spaced_Cons)
  next
    case False
    show ?thesis
    proof (cases cs)
      case Nil
      with False show ?thesis by (simp add: join_split_letter)
    next
      case (Cons d ds)
      with False Cons.prems Cons.IH show ?thesis
        by (cases "isspace d") (auto simp: join_split_letter punct_spaced_Cons hd_join_split)
    qed
  qed
qed

lemma punct_spaced_nth:
  "punct_spaced t \<Longrightarrow> i < length t \<Longrightarrow> t ! i = CHR ''.'' \<or> t ! i = CHR '','' \<Longrightarrow>
   Suc i = length t \<or> t ! Suc i = CHR '' ''"
proof (induction t arbitrary: i rule: punct_spaced.induct)
  case (3 c d r)
  then show ?case by (cases i) auto
qed auto

lemma str_split_append_space:
  "isspace c \<Longrightarrow> str_split (x @ c # y) = str_split x @ str_split y"
proof (induction x)
  case Nil
  then show ?case by simp
next
  case (Cons d ds)
  show ?case
  proof (cases "isspace d")
    case True
    with Cons show ?thesis by simp
  next
    case False
    show ?thesis
    proof (cases ds)
      case Nil
      with False Cons.prems show ?thesis by (simp add: str_split_letter)
    next
      case (Cons e es)
      show ?thesis
      proof (cases "isspace e")
        case True
        with False Cons Cons.prems Cons.IH show ?thesis by (simp add: str_split_letter)
      next
        case ne: False
        then obtain v vs where "str_split ds = v # vs"
          using str_split_nonempty [of e es] Cons by (cases "str_split ds") auto
        with False Cons ne Cons.prems Cons.IH show ?thesis by (simp add: str_split_letter)
      qed
    qed
  qed
qed

lemma str_split_spaces: "\<forall>c \<in> set ws. isspace c \<Longrightarrow> str_split (ws @ y) = str_split y"
  by (induction ws) auto

lemma str_split_append_spaces:
  "ws \<noteq> [] \<Longrightarrow> \<forall>c \<in> set ws. isspace c \<Longrightarrow> str_split (x @ ws @ y) = str_split x @ str_split y"
  by (cases ws) (auto simp: str_split_append_space str_split_spaces)

lemma str_join_append:
  "str_join (u @ v) = str_join u @ (if u = [] \<or> v = [] then [] else '' '') @ str_join v"
proof (induction u rule: str_join.induct)
  case (2 w)
  show ?case by (cases v) auto
qed auto

lemma join_split_append_spaces:
  assumes "ws \<noteq> []" "\<forall>c \<in> set ws. isspace c"
  shows "str_join (str_split (x @ ws @ y)) =
     str_join (str_split x)
       @ (if str_join (str_split x) = [] \<or> str_join (str_split y) = [] then [] else '' '')
       @ str_join (str_split y)"
  by (simp add: str_split_append_spaces [OF assms] str_join_append join_split_eq_Nil)

subsection \<open>Characters that separate the steps\<close>

lemma prefix_separator:
  "c \<notin> set pat \<Longrightarrow> prefix pat (x @ c # y) \<longleftrightarrow> prefix pat x"
  by (auto simp: prefix_append prefix_Cons)

lemma replace_literal_separator:
  "c \<notin> set pat \<Longrightarrow>
   replace_literal pat rep (x @ c # y) = replace_literal pat rep x @ c # replace_literal pat rep y"
proof (induction pat rep x rule: replace_literal.induct)
  case (1 pat rep)
  then have "\<not> prefix pat (c # y) \<or> pat = []"
    by (cases pat) auto
  then show ?case by (auto simp: replace_literal.simps(2))
next
  case (2 pat rep d ds)
  have p: "prefix pat (d # ds @ c # y) \<longleftrightarrow> prefix pat (d # ds)"
    using prefix_separator [OF "2.prems", of "d # ds" y] by simp
  show ?case
  proof (cases "pat \<noteq> [] \<and> prefix pat (d # ds)")
    case True
    then have "length pat \<le> length (d # ds)"
      by (auto dest: prefix_length_le)
    then have "drop (length pat) (d # ds @ c # y) = drop (length pat) (d # ds) @ c # y"
      using drop_append [of "length pat" "d # ds" "c # y"] by simp
    with True p "2.IH"(1) "2.prems" show ?thesis
      by (simp add: replace_literal.simps(2))
  next
    case False
    with p "2.IH"(2) "2.prems" show ?thesis
      by (auto simp: replace_literal.simps(2))
  qed
qed

lemma replace_literal_separators:
  "ws \<noteq> [] \<Longrightarrow> \<forall>c \<in> set ws. c \<notin> set pat \<Longrightarrow>
   replace_literal pat rep (x @ ws @ y) = replace_literal pat rep x @ ws @ replace_literal pat rep y"
proof (induction ws arbitrary: x rule: list_nonempty_induct)
  case (single c)
  then show ?case by (simp add: replace_literal_separator)
next
  case (cons c cs)
  have "replace_literal pat rep ((x @ [c]) @ cs @ y)
      = replace_literal pat rep (x @ [c]) @ cs @ replace_literal pat rep y"
    using cons.IH [of "x @ [c]"] cons.prems by simp
  moreover have "replace_literal pat rep (x @ [c]) = replace_literal pat rep x @ [c]"
    using replace_literal_separator [of c pat rep x "[]"] cons.prems by simp
  ultimately show ?case by simp
qed

lemma sub_slash_separator:
  "\<not> ascii_letter c \<Longrightarrow> c \<noteq> CHR ''/'' \<Longrightarrow>
   sub_slash p (x @ c # y) = sub_slash p x @ c # sub_slash False y"
proof (induction x arbitrary: p)
  case Nil
  then show ?case by simp
next
  case (Cons d ds)
  have "(case ds @ c # y of [] \<Rightarrow> False | e # _ \<Rightarrow> ascii_letter e)
      = (case ds of [] \<Rightarrow> False | e # _ \<Rightarrow> ascii_letter e)"
    using Cons.prems by (cases ds) auto
  then show ?case using Cons by simp
qed

lemma sub_slash_separators:
  "ws \<noteq> [] \<Longrightarrow> \<forall>c \<in> set ws. \<not> ascii_letter c \<and> c \<noteq> CHR ''/'' \<Longrightarrow>
   sub_slash p (x @ ws @ y) = sub_slash p x @ ws @ sub_slash False y"
proof (induction ws arbitrary: x rule: list_nonempty_induct)
  case (single c)
  then show ?case by (simp add: sub_slash_separator)
next
  case (cons c cs)
  have "sub_slash p ((x @ [c]) @ cs @ y) = sub_slash p (x @ [c]) @ cs @ sub_slash False y"
    using cons.IH [of "x @ [c]"] cons.prems by simp
  moreover have "sub_slash p (x @ [c]) = sub_slash p x @ [c]"
    using sub_slash_separator [of c p x "[]"] cons.prems by simp
  ultimately show ?case by simp
qed

lemma isspace_facts:
  "isspace c \<Longrightarrow> \<not> ascii_letter c \<and> c \<noteq> CHR ''/'' \<and> c \<noteq> CHR ''.'' \<and> c \<noteq> CHR '',''
     \<and> c \<notin> set ''and/or'' \<and> c \<notin> set ''..''"
  by (auto simp: isspace_def ascii_letter_def)

lemma lower_append: "lower (x @ y) = lower x @ lower y"
  by (simp add: lower_def)

lemma lower_spaces: "\<forall>c \<in> set ws. isspace c \<Longrightarrow> lower ws = ws"
  by (induction ws) (auto simp: lower_def lower_char_isspace)

lemma translate_spaces: "\<forall>c \<in> set ws. isspace c \<Longrightarrow> translate ws = ws"
  by (induction ws) (auto simp: translate_Cons punctuation_spacer_def dest: isspace_facts)

lemma clean_stages: "clean s = str_join (str_split (stages s))"
  by (simp add: clean_def stages_def)

lemma stages_append_spaces:
  assumes "ws \<noteq> []" "\<forall>c \<in> set ws. isspace c"
  shows "stages (a @ ws @ b) = stages a @ ws @ stages b"
proof -
  have 1: "\<forall>c \<in> set ws. c \<notin> set ''and/or''" "\<forall>c \<in> set ws. c \<notin> set ''..''"
    "\<forall>c \<in> set ws. \<not> ascii_letter c \<and> c \<noteq> CHR ''/''"
    using assms(2) isspace_facts by blast+
  show ?thesis
    unfolding stages_def
    by (simp only: lower_append lower_spaces [OF assms(2)]
        replace_literal_separators [OF assms(1) 1(1)] sub_slash_separators [OF assms(1) 1(3)]
        replace_literal_separators [OF assms(1) 1(2)] translate_append
        translate_spaces [OF assms(2)])
qed

text \<open>
  Claim C3, amended: a non-empty run of whitespace between two parts of the input becomes
  exactly one space when both parts leave something behind, and disappears otherwise; so
  a run at the start or at the end of the string is removed, not turned into a space.
\<close>

theorem clean_whitespace_run:
  assumes "ws \<noteq> []" "\<forall>c \<in> set ws. isspace c"
  shows "clean (a @ ws @ b) =
     clean a @ (if clean a = [] \<or> clean b = [] then [] else '' '') @ clean b"
  unfolding clean_stages stages_append_spaces [OF assms]
  by (rule join_split_append_spaces [OF assms])

lemma stages_spaces:
  assumes "\<forall>c \<in> set ws. isspace c"
  shows "stages ws = ws"
proof (cases "ws = []")
  case True
  then show ?thesis by (simp add: stages_def lower_def)
next
  case False
  have "stages ([] @ ws @ []) = stages [] @ ws @ stages []"
    by (rule stages_append_spaces [OF False assms])
  then show ?thesis by (simp add: stages_def lower_def)
qed

text \<open>
  Claim C3 as stated fails: the run of two spaces at the start of this input has no
  space in the output.
\<close>

theorem clean_whitespace_run_counterexample:
  "clean ''  a'' = ''a'' \<and> CHR '' '' \<notin> set (clean ''  a'')"
  by code_simp

theorem clean_whitespace_run_witness:
  "clean (''Ab'' @ [CHR '' '', CHR 0x09] @ ''c'') = ''ab c''"
proof -
  have 1: "[CHR '' '', CHR 0x09] \<noteq> []" by simp
  have 2: "\<forall>c \<in> set [CHR '' '', CHR 0x09]. isspace c" by (simp add: isspace_def)
  have "clean ''Ab'' = ''ab''" "clean ''c'' = ''c''" by code_simp+
  with clean_whitespace_run [OF 1 2, of "''Ab''" "''c''"] show ?thesis by simp
qed

text \<open>
  Claim C4, amended: in the returned string every period and every comma is immediately
  followed by a space, or it is the last character of the string.
\<close>

theorem clean_punctuation_spaced:
  "i < length (clean s) \<Longrightarrow> clean s ! i = CHR ''.'' \<or> clean s ! i = CHR '','' \<Longrightarrow>
   Suc i = length (clean s) \<or> clean s ! Suc i = CHR '' ''"
  unfolding clean_stages
  by (rule punct_spaced_nth [OF punct_spaced_join_split])
    (simp_all add: stages_def punct_spaced_translate)

text \<open>
  Claim C4 as stated fails: the final period of this input is the last character of the
  output, the space put behind it is cut off by the final split.
\<close>

theorem clean_punctuation_spaced_counterexample:
  "clean ''a.'' = ''a.'' \<and> last (clean ''a.'') = CHR ''.''"
  by code_simp

theorem clean_punctuation_spaced_witness:
  "clean ''A,b.'' ! 1 = CHR '','' \<and> clean ''A,b.'' ! Suc 1 = CHR '' ''"
proof -
  have e: "clean ''A,b.'' = ''a, b.''" by code_simp
  have 1: "1 < length (clean ''A,b.'')" unfolding e by simp
  have 2: "clean ''A,b.'' ! 1 = CHR ''.'' \<or> clean ''A,b.'' ! 1 = CHR '',''" unfolding e by simp
  have 3: "Suc 1 \<noteq> length (clean ''A,b.'')" unfolding e by simp
  from clean_punctuation_spaced [OF 1 2] 2 3 show ?thesis unfolding e by simp
qed

text \<open>
  Claim C9: the string returned by \<open>clean\<close> has no whitespace at its start or end, its
  only whitespace character is the space, and no two whitespace characters are adjacent
  in it.
\<close>

theorem clean_whitespace_normal_form:
  "(clean s \<noteq> [] \<longrightarrow> \<not> isspace (hd (clean s)) \<and> \<not> isspace (last (clean s)))
   \<and> (\<forall>c \<in> set (clean s). isspace c \<longrightarrow> c = CHR '' '')
   \<and> (\<forall>i. Suc i < length (clean s) \<longrightarrow> \<not> (isspace (clean s ! i) \<and> isspace (clean s ! Suc i)))"
  unfolding clean_stages
  using tight_join_split [of "stages s"] hd_join_split [of "stages s"]
  by (auto dest: tight_set tight_last tight_nth)

theorem clean_whitespace_normal_form_witness:
  "clean [CHR 0x09, CHR '' '', CHR ''A'', CHR ''.'', CHR '' '', CHR 0x0A, CHR ''b'', CHR '' ''] = ''a. b''
   \<and> \<not> isspace (hd ''a. b'') \<and> \<not> isspace (last ''a. b'')"
proof -
  let ?s = "[CHR 0x09, CHR '' '', CHR ''A'', CHR ''.'', CHR '' '', CHR 0x0A, CHR ''b'', CHR '' '']"
  have e: "clean ?s = ''a. b''" by code_simp
  have "clean ?s \<noteq> []" unfolding e by simp
  with clean_whitespace_normal_form [of ?s] show ?thesis unfolding e by simp
qed

lemma clean_spaces: "\<forall>c \<in> set s. isspace c \<Longrightarrow> clean s = []"
  using str_split_spaces [of s "[]"] by (simp add: clean_stages stages_spaces)

subsection \<open>The substitution of \<open>and/or\<close>\<close>

lemma andor_no_overlap:
  "prefix ''and/or'' (x @ ''and/or'' @ y) \<Longrightarrow> x = [] \<or> prefix ''and/or'' x"
  by (auto simp: prefix_append Cons_eq_append_conv prefix_Cons)

lemma andor_across_slash:
  "prefix ''and/or'' (x @ CHR ''/'' # y) \<Longrightarrow>
   prefix ''and/or'' x \<or> (x = ''and'' \<and> prefix ''or'' y)"
  by (auto simp: prefix_append Cons_eq_append_conv prefix_Cons)

lemma replace_literal_eq_Nil [simp]:
  "rep \<noteq> [] \<Longrightarrow> replace_literal pat rep x = [] \<longleftrightarrow> x = []"
  by (cases x) (auto simp: replace_literal.simps(2))

lemma replace_literal_no_match:
  "\<not> prefix pat (c # cs) \<Longrightarrow> replace_literal pat rep (c # cs) = c # replace_literal pat rep cs"
  by (simp add: replace_literal.simps(2))

lemma replace_literal_match:
  "pat \<noteq> [] \<Longrightarrow> replace_literal pat rep (pat @ y) = rep @ replace_literal pat rep y"
  by (cases pat) (auto simp: replace_literal.simps(2))

lemma replace_literal_append:
  assumes "\<And>x'. x' \<noteq> [] \<Longrightarrow> suffix x' x \<Longrightarrow> prefix pat (x' @ z) \<Longrightarrow> prefix pat x'"
  shows "replace_literal pat rep (x @ z) = replace_literal pat rep x @ replace_literal pat rep z"
  using assms
proof (induction pat rep x rule: replace_literal.induct)
  case (1 pat rep)
  then show ?case by simp
next
  case (2 pat rep c cs)
  have ac: "prefix pat (c # cs @ z) \<longleftrightarrow> prefix pat (c # cs)"
    using "2.prems" [of "c # cs"] prefix_prefix [of pat "c # cs" z] by auto
  show ?case
  proof (cases "pat \<noteq> [] \<and> prefix pat (c # cs)")
    case True
    then have "length pat \<le> length (c # cs)"
      by (auto dest: prefix_length_le)
    then have d: "drop (length pat) (c # cs @ z) = drop (length pat) (c # cs) @ z"
      using drop_append [of "length pat" "c # cs" z] by simp
    have "replace_literal pat rep (drop (length pat) (c # cs) @ z)
        = replace_literal pat rep (drop (length pat) (c # cs)) @ replace_literal pat rep z"
    proof (rule "2.IH"(1) [OF True])
      fix x' assume "x' \<noteq> []" "suffix x' (drop (length pat) (c # cs))" "prefix pat (x' @ z)"
      moreover have "suffix (drop (length pat) (c # cs)) (c # cs)"
        by (rule suffix_drop)
      ultimately show "prefix pat x'"
        using "2.prems" [of x'] suffix_order.trans by blast
    qed
    with True ac d show ?thesis
      by (simp add: replace_literal.simps(2))
  next
    case False
    have "replace_literal pat rep (cs @ z) = replace_literal pat rep cs @ replace_literal pat rep z"
    proof (rule "2.IH"(2) [OF False])
      fix x' assume "x' \<noteq> []" "suffix x' cs" "prefix pat (x' @ z)"
      then show "prefix pat x'"
        using "2.prems" [of x'] by (auto intro: suffix_ConsI)
    qed
    with False ac show ?thesis
      by (auto simp: replace_literal.simps(2))
  qed
qed

lemma replace_andor_occurrence:
  "replace_literal ''and/or'' ''or'' (x @ ''and/or'' @ y)
     = replace_literal ''and/or'' ''or'' x @ ''or'' @ replace_literal ''and/or'' ''or'' y"
proof -
  have "replace_literal ''and/or'' ''or'' (x @ (''and/or'' @ y))
      = replace_literal ''and/or'' ''or'' x @ replace_literal ''and/or'' ''or'' (''and/or'' @ y)"
  proof (rule replace_literal_append)
    fix x' :: string
    assume "x' \<noteq> []" "prefix ''and/or'' (x' @ ''and/or'' @ y)"
    then show "prefix ''and/or'' x'"
      using andor_no_overlap [of x' y] by blast
  qed
  moreover have "replace_literal ''and/or'' ''or'' (''and/or'' @ y)
      = ''or'' @ replace_literal ''and/or'' ''or'' y"
    by (rule replace_literal_match) simp
  ultimately show ?thesis by simp
qed

lemma replace_andor_slash:
  assumes "\<not> (suffix ''and'' x \<and> prefix ''or'' y)"
  shows "replace_literal ''and/or'' ''or'' (x @ CHR ''/'' # y)
     = replace_literal ''and/or'' ''or'' x @ CHR ''/'' # replace_literal ''and/or'' ''or'' y"
proof -
  have "replace_literal ''and/or'' ''or'' (x @ CHR ''/'' # y)
      = replace_literal ''and/or'' ''or'' x @ replace_literal ''and/or'' ''or'' (CHR ''/'' # y)"
  proof (rule replace_literal_append)
    fix x' :: string
    assume "x' \<noteq> []" "suffix x' x" "prefix ''and/or'' (x' @ CHR ''/'' # y)"
    then show "prefix ''and/or'' x'"
      using andor_across_slash [of x' y] assms by blast
  qed
  moreover have "replace_literal ''and/or'' ''or'' (CHR ''/'' # y)
      = CHR ''/'' # replace_literal ''and/or'' ''or'' y"
    by (rule replace_literal_no_match) simp
  ultimately show ?thesis by simp
qed

lemma replace_literal_last:
  "pat \<noteq> [] \<Longrightarrow> rep \<noteq> [] \<Longrightarrow> last rep = last pat \<Longrightarrow> x \<noteq> [] \<Longrightarrow>
   last (replace_literal pat rep x) = last x"
proof (induction pat rep x rule: replace_literal.induct)
  case (1 pat rep)
  then show ?case by simp
next
  case (2 pat rep c cs)
  show ?case
  proof (cases "prefix pat (c # cs)")
    case True
    then obtain r where r: "c # cs = pat @ r"
      by (auto simp: prefix_def)
    then have d: "drop (length pat) (c # cs) = r"
      by (metis append_eq_conv_conj)
    show ?thesis
    proof (cases "r = []")
      case True
      with r "2.prems" replace_literal_match [of pat rep "[]"] show ?thesis
        by simp
    next
      case False
      have "last (c # cs) = last r"
        using r False by (metis last_appendR)
      with False d True "2.IH"(1) "2.prems" show ?thesis
        by (simp add: replace_literal.simps(2))
    qed
  next
    case False
    with "2.IH"(2) "2.prems" show ?thesis
      by (cases cs) (auto simp: replace_literal.simps(2))
  qed
qed

lemma replace_literal_hd:
  "x \<noteq> [] \<Longrightarrow> rep \<noteq> [] \<Longrightarrow>
   hd (replace_literal pat rep x) = (if pat \<noteq> [] \<and> prefix pat x then hd rep else hd x)"
  by (cases x) (auto simp: replace_literal.simps(2))

lemma replace_andor_last:
  "x \<noteq> [] \<Longrightarrow> last (replace_literal ''and/or'' ''or'' x) = last x"
  by (rule replace_literal_last) simp_all

lemma replace_dots_last:
  "x \<noteq> [] \<Longrightarrow> last (replace_literal ''..'' ''.'' x) = last x"
  by (rule replace_literal_last) simp_all

lemma replace_andor_hd_letter:
  "x \<noteq> [] \<Longrightarrow> ascii_letter (hd (replace_literal ''and/or'' ''or'' x)) = ascii_letter (hd x)"
  by (cases x) (auto simp: replace_literal_hd)

lemma replace_andor_hd_dot:
  "x \<noteq> [] \<Longrightarrow> hd (replace_literal ''and/or'' ''or'' x) = CHR ''.'' \<longleftrightarrow> hd x = CHR ''.''"
  by (cases x) (auto simp: replace_literal_hd)

lemma replace_dots_hd:
  "x \<noteq> [] \<Longrightarrow> hd (replace_literal ''..'' ''.'' x) = hd x"
  by (cases x) (auto simp: replace_literal_hd)

lemma sub_slash_eq_Nil [simp]: "sub_slash p x = [] \<longleftrightarrow> x = []"
  by (cases x) auto

lemma sub_slash_last: "x \<noteq> [] \<Longrightarrow> last (sub_slash p x) = last x"
proof (induction x arbitrary: p)
  case Nil
  then show ?case by simp
next
  case (Cons d ds)
  show ?case
  proof (cases "ds = []")
    case True
    then show ?thesis by simp
  next
    case False
    then have "last (sub_slash q ds) = last ds" for q
      by (rule Cons.IH)
    with False show ?thesis by simp
  qed
qed

lemma sub_slash_hd: "x \<noteq> [] \<Longrightarrow> hd (sub_slash False x) = hd x"
  by (cases x) auto

lemma sub_slash_hd_letter: "x \<noteq> [] \<Longrightarrow> ascii_letter (hd (sub_slash p x)) = ascii_letter (hd x)"
  by (cases x) auto

lemma sub_slash_hd_dot: "x \<noteq> [] \<Longrightarrow> hd (sub_slash p x) = CHR ''.'' \<longleftrightarrow> hd x = CHR ''.''"
  by (cases x) auto

lemma sub_slash_flanked:
  "ascii_letter u \<Longrightarrow> ascii_letter v \<Longrightarrow>
   sub_slash p (x @ u # CHR ''/'' # v # y)
     = sub_slash p (x @ [u]) @ '' or '' @ sub_slash False (v # y)"
proof (induction x arbitrary: p)
  case Nil
  then have "u \<noteq> CHR ''/''" by auto
  with Nil show ?case by simp
next
  case (Cons d ds)
  have "(case ds @ u # CHR ''/'' # v # y of [] \<Rightarrow> False | e # _ \<Rightarrow> ascii_letter e)
      = (case ds @ [u] of [] \<Rightarrow> False | e # _ \<Rightarrow> ascii_letter e)"
    by (cases ds) auto
  then show ?case using Cons by simp
qed

lemma sub_slash_unflanked:
  "\<not> ((if x = [] then p else ascii_letter (last x)) \<and> y \<noteq> [] \<and> ascii_letter (hd y)) \<Longrightarrow>
   sub_slash p (x @ CHR ''/'' # y) = sub_slash p x @ CHR ''/'' # sub_slash False y"
proof (induction x arbitrary: p)
  case Nil
  then show ?case by (cases y) auto
next
  case (Cons d ds)
  have la: "(case ds @ CHR ''/'' # y of [] \<Rightarrow> False | e # _ \<Rightarrow> ascii_letter e)
      = (case ds of [] \<Rightarrow> False | e # _ \<Rightarrow> ascii_letter e)"
    by (cases ds) auto
  have ih: "sub_slash q (ds @ CHR ''/'' # y) = sub_slash q ds @ CHR ''/'' # sub_slash False y"
    if "ds = [] \<Longrightarrow> q = ascii_letter d" for q
  proof -
    have "\<not> ((if ds = [] then q else ascii_letter (last ds)) \<and> y \<noteq> [] \<and> ascii_letter (hd y))"
      using Cons.prems that by (cases "ds = []") auto
    then show ?thesis by (rule Cons.IH)
  qed
  show ?case
  proof (cases "d = CHR ''/'' \<and> p \<and> (case ds of [] \<Rightarrow> False | e # _ \<Rightarrow> ascii_letter e)")
    case True
    then have "ds \<noteq> []" by auto
    then have "sub_slash False (ds @ CHR ''/'' # y) = sub_slash False ds @ CHR ''/'' # sub_slash False y"
      by (intro ih) simp
    with True la show ?thesis by simp
  next
    case False
    have "sub_slash (ascii_letter d) (ds @ CHR ''/'' # y)
        = sub_slash (ascii_letter d) ds @ CHR ''/'' # sub_slash False y"
      by (intro ih) simp
    with False la show ?thesis by auto
  qed
qed

lemma clean_append_spaces:
  assumes "ws \<noteq> []" "\<forall>c \<in> set ws. isspace c"
  shows "clean (a @ ws @ b) =
     clean a @ (if clean a = [] \<or> clean b = [] then [] else '' '') @ clean b"
  unfolding clean_stages stages_append_spaces [OF assms]
  by (rule join_split_append_spaces [OF assms])

lemma clean_append_space:
  "clean (a @ '' '' @ b) = clean a @ (if clean a = [] \<or> clean b = [] then [] else '' '') @ clean b"
  by (rule clean_append_spaces) simp_all

lemma clean_of_andor:
  "str_join (str_split (translate (replace_literal ''..'' ''.''
     (sub_slash False (replace_literal ''and/or'' ''or'' ''and/or''))))) = ''or''"
  by code_simp

text \<open>
  Claim C6: an occurrence of \<open>and/or\<close> in the lowercased input, in any mix of cases in
  the input itself, is replaced by the word \<open>or\<close> before the slash rule runs: the slash
  rule and the later steps see \<open>or\<close> between the substituted left and right parts. Where
  the occurrence stands between spaces, the output has exactly the word \<open>or\<close> there.
\<close>

theorem clean_andor:
  assumes "lower w = ''and/or''"
  shows "clean (a @ w @ b) =
       str_join (str_split (translate (replace_literal ''..'' ''.'' (sub_slash False
         (replace_literal ''and/or'' ''or'' (lower a) @ ''or''
            @ replace_literal ''and/or'' ''or'' (lower b))))))
     \<and> clean (a @ '' '' @ w @ '' '' @ b) =
       clean a @ (if clean a = [] then [] else '' '') @ ''or''
         @ (if clean b = [] then [] else '' '') @ clean b"
proof
  show "clean (a @ w @ b) =
       str_join (str_split (translate (replace_literal ''..'' ''.'' (sub_slash False
         (replace_literal ''and/or'' ''or'' (lower a) @ ''or''
            @ replace_literal ''and/or'' ''or'' (lower b))))))"
    unfolding clean_def Let_def lower_append assms replace_andor_occurrence ..
  have w: "clean w = ''or''"
    unfolding clean_def Let_def assms by (rule clean_of_andor)
  have "clean (w @ '' '' @ b) = ''or'' @ (if clean b = [] then [] else '' '') @ clean b"
    unfolding clean_append_space w by simp
  then show "clean (a @ '' '' @ w @ '' '' @ b) =
       clean a @ (if clean a = [] then [] else '' '') @ ''or''
         @ (if clean b = [] then [] else '' '') @ clean b"
    unfolding clean_append_space [of a] by simp
qed

theorem clean_andor_witness:
  "clean (''x,'' @ ''And/OR'' @ ''y'') = ''x, ory''
   \<and> clean (''x'' @ '' '' @ ''And/OR'' @ '' '' @ ''y'') = ''x or y''"
proof -
  have 1: "lower ''And/OR'' = ''and/or''" by code_simp
  have "str_join (str_split (translate (replace_literal ''..'' ''.'' (sub_slash False
         (replace_literal ''and/or'' ''or'' (lower ''x,'') @ ''or''
            @ replace_literal ''and/or'' ''or'' (lower ''y'')))))) = ''x, ory''"
    by code_simp
  moreover have "clean ''x'' = ''x''" "clean ''y'' = ''y''"
    by code_simp+
  ultimately show ?thesis
    using clean_andor [OF 1, of "''x,''" "''y''"] clean_andor [OF 1, of "''x''" "''y''"]
    by simp
qed

subsection \<open>The substitution of the slash\<close>

lemma str_split_eq_Nil: "str_split t = [] \<longleftrightarrow> (\<forall>c \<in> set t. isspace c)"
proof (induction t)
  case Nil
  show ?case by simp
next
  case (Cons c cs)
  then show ?case by (cases "isspace c") (auto simp: str_split_letter)
qed

lemma join_split_nonempty:
  "c \<in> set t \<Longrightarrow> \<not> isspace c \<Longrightarrow> str_join (str_split t) \<noteq> []"
  by (auto simp: join_split_eq_Nil str_split_eq_Nil)

lemma filter_join_split:
  "filter (\<lambda>c. \<not> isspace c) (str_join (str_split t)) = filter (\<lambda>c. \<not> isspace c) t"
proof (induction t)
  case Nil
  show ?case by simp
next
  case (Cons c cs)
  then show ?case by (cases "isspace c") (auto simp: join_split_letter)
qed

lemma translate_snoc:
  "c \<noteq> CHR ''.'' \<Longrightarrow> c \<noteq> CHR '','' \<Longrightarrow> translate (xs @ [c]) = translate xs @ [c]"
  by (simp add: translate_append translate_Cons punctuation_spacer_def)

lemma translate_last:
  assumes "t \<noteq> []" "last t \<noteq> CHR ''.''" "last t \<noteq> CHR '',''"
  shows "last (translate t) = last t"
proof -
  have "translate (butlast t @ [last t]) = translate (butlast t) @ [last t]"
    using assms(2,3) by (rule translate_snoc)
  moreover have "butlast t @ [last t] = t"
    using assms(1) by simp
  ultimately have "translate t = translate (butlast t) @ [last t]"
    by simp
  then show ?thesis by simp
qed

lemma translate_hd: "t \<noteq> [] \<Longrightarrow> hd (translate t) = hd t"
  by (cases t) (auto simp: translate_Cons punctuation_spacer_def)

lemma translate_eq_Nil [simp]: "translate t = [] \<longleftrightarrow> t = []"
  by (cases t) (auto simp: translate_Cons punctuation_spacer_def)

lemma lower_eq_Nil [simp]: "lower t = [] \<longleftrightarrow> t = []"
  by (simp add: lower_def)

lemma lower_last: "t \<noteq> [] \<Longrightarrow> last (lower t) = lower_char (last t)"
  by (simp add: lower_def last_map)

lemma lower_hd: "t \<noteq> [] \<Longrightarrow> hd (lower t) = lower_char (hd t)"
  by (simp add: lower_def hd_map)

lemma stages_eq_Nil [simp]: "stages t = [] \<longleftrightarrow> t = []"
  by (simp add: stages_def)

lemma stages_last_letter:
  assumes "t \<noteq> []" "ascii_letter (last t)"
  shows "last (stages t) = lower_char (last t)"
proof -
  let ?x = "replace_literal ''..'' ''.'' (sub_slash False (replace_literal ''and/or'' ''or'' (lower t)))"
  have "?x \<noteq> []" using assms(1) by simp
  moreover have l: "last ?x = lower_char (last t)"
    using assms(1) by (simp add: replace_dots_last sub_slash_last replace_andor_last lower_last)
  moreover have "lower_char (last t) \<noteq> CHR ''.''" "lower_char (last t) \<noteq> CHR '',''"
    using assms(2) by auto
  ultimately show ?thesis
    unfolding stages_def using translate_last [of ?x] by simp
qed

lemma stages_hd_letter:
  assumes "t \<noteq> []" "ascii_letter (hd t)"
  shows "ascii_letter (hd (stages t))"
  using assms unfolding stages_def
  by (simp add: translate_hd replace_dots_hd sub_slash_hd replace_andor_hd_letter lower_hd)

lemma clean_nonempty_last: "t \<noteq> [] \<Longrightarrow> ascii_letter (last t) \<Longrightarrow> clean t \<noteq> []"
proof -
  assume t: "t \<noteq> []" "ascii_letter (last t)"
  then have "last (stages t) \<in> set (stages t)" by simp
  moreover have "\<not> isspace (last (stages t))"
    using stages_last_letter [OF t] t(2) isspace_not_letter [of "lower_char (last t)"] by auto
  ultimately show ?thesis
    unfolding clean_stages by (rule join_split_nonempty)
qed

lemma clean_nonempty_hd: "t \<noteq> [] \<Longrightarrow> ascii_letter (hd t) \<Longrightarrow> clean t \<noteq> []"
proof -
  assume t: "t \<noteq> []" "ascii_letter (hd t)"
  then have "hd (stages t) \<in> set (stages t)" by simp
  moreover have "\<not> isspace (hd (stages t))"
    using stages_hd_letter [OF t] isspace_not_letter by blast
  ultimately show ?thesis
    unfolding clean_stages by (rule join_split_nonempty)
qed

lemma stages_flanked_slash:
  assumes u: "ascii_letter u" and v: "ascii_letter v"
    and no: "\<not> (suffix ''and'' (lower (a @ [u])) \<and> prefix ''or'' (lower (v # b)))"
  shows "stages (a @ [u] @ ''/'' @ [v] @ b) = stages (a @ [u]) @ '' or '' @ stages (v # b)"
proof -
  let ?A = "replace_literal ''and/or'' ''or'' (lower (a @ [u]))"
  let ?B = "replace_literal ''and/or'' ''or'' (lower (v # b))"
  have 1: "replace_literal ''and/or'' ''or'' (lower (a @ [u] @ ''/'' @ [v] @ b)) = ?A @ CHR ''/'' # ?B"
    using replace_andor_slash [OF no] by (simp add: lower_def lower_char_def)
  have A: "?A \<noteq> []" "ascii_letter (last ?A)"
    using u by (simp_all add: replace_andor_last lower_last)
  have B: "?B \<noteq> []" "ascii_letter (hd ?B)"
    using v by (simp_all add: replace_andor_hd_letter lower_hd)
  obtain X u' where X: "?A = X @ [u']"
    using A(1) by (cases ?A rule: rev_cases) auto
  obtain v' Y where Y: "?B = v' # Y"
    using B(1) by (cases ?B) auto
  have "sub_slash False (X @ u' # CHR ''/'' # v' # Y)
      = sub_slash False (X @ [u']) @ '' or '' @ sub_slash False (v' # Y)"
    using A(2) B(2) unfolding X Y by (intro sub_slash_flanked) simp_all
  then have 2: "sub_slash False (?A @ CHR ''/'' # ?B)
      = sub_slash False ?A @ '' or '' @ sub_slash False ?B"
    unfolding X Y by simp
  have 3: "replace_literal ''..'' ''.'' (x @ '' or '' @ y)
      = replace_literal ''..'' ''.'' x @ '' or '' @ replace_literal ''..'' ''.'' y" for x y
    by (rule replace_literal_separators) simp_all
  have 4: "translate (x @ '' or '' @ y) = translate x @ '' or '' @ translate y" for x y
    by (simp add: translate_append translate_Cons punctuation_spacer_def)
  show ?thesis
    unfolding stages_def 1 2 3 4 ..
qed

lemma join_split_or:
  assumes "str_join (str_split x) \<noteq> []" "str_join (str_split y) \<noteq> []"
  shows "str_join (str_split (x @ '' or '' @ y))
     = str_join (str_split x) @ '' or '' @ str_join (str_split y)"
proof -
  have o: "str_join (str_split ''or'') = ''or''" by code_simp
  have "str_join (str_split (''or'' @ '' '' @ y)) = ''or '' @ str_join (str_split y)"
    using join_split_append_spaces [of "'' ''" "''or''" y] assms(2) o by simp
  moreover have "str_join (str_split (x @ '' '' @ (''or'' @ '' '' @ y)))
      = str_join (str_split x) @ '' '' @ str_join (str_split (''or'' @ '' '' @ y))"
    using join_split_append_spaces [of "'' ''" x "''or'' @ '' '' @ y"] assms(1) calculation by simp
  ultimately show ?thesis by simp
qed

lemma stages_unflanked_slash:
  assumes "\<not> (a \<noteq> [] \<and> ascii_letter (last a) \<and> b \<noteq> [] \<and> ascii_letter (hd b))"
  shows "stages (a @ ''/'' @ b) = stages a @ ''/'' @ stages b"
proof -
  let ?A = "replace_literal ''and/or'' ''or'' (lower a)"
  let ?B = "replace_literal ''and/or'' ''or'' (lower b)"
  have "a \<noteq> [] \<and> ascii_letter (last a)" if "suffix ''and'' (lower a)"
  proof -
    from that obtain zs where zs: "lower a = zs @ ''and''"
      by (auto simp: suffix_def)
    then have "lower a \<noteq> []" "last (lower a) = CHR ''d''"
      by simp_all
    then have "a \<noteq> []" "lower_char (last a) = CHR ''d''"
      by (simp_all add: lower_last)
    then show ?thesis
      using ascii_letter_lower_char [of "last a"] by simp
  qed
  moreover have "b \<noteq> [] \<and> ascii_letter (hd b)" if "prefix ''or'' (lower b)"
  proof -
    from that obtain zs where zs: "lower b = ''or'' @ zs"
      by (auto simp: prefix_def)
    then have "lower b \<noteq> []" "hd (lower b) = CHR ''o''"
      by simp_all
    then have "b \<noteq> []" "lower_char (hd b) = CHR ''o''"
      by (simp_all add: lower_hd)
    then show ?thesis
      using ascii_letter_lower_char [of "hd b"] by simp
  qed
  ultimately have "\<not> (suffix ''and'' (lower a) \<and> prefix ''or'' (lower b))"
    using assms by blast
  then have 1: "replace_literal ''and/or'' ''or'' (lower (a @ ''/'' @ b)) = ?A @ CHR ''/'' # ?B"
    using replace_andor_slash [of "lower a" "lower b"] by (simp add: lower_def lower_char_def)
  have "\<not> ((if ?A = [] then False else ascii_letter (last ?A)) \<and> ?B \<noteq> [] \<and> ascii_letter (hd ?B))"
    using assms by (auto simp: replace_andor_last replace_andor_hd_letter lower_last lower_hd)
  then have 2: "sub_slash False (?A @ CHR ''/'' # ?B)
      = sub_slash False ?A @ CHR ''/'' # sub_slash False ?B"
    by (rule sub_slash_unflanked)
  have 3: "replace_literal ''..'' ''.'' (x @ CHR ''/'' # y)
      = replace_literal ''..'' ''.'' x @ CHR ''/'' # replace_literal ''..'' ''.'' y" for x y
    by (rule replace_literal_separator) simp
  have 4: "translate (x @ CHR ''/'' # y) = translate x @ CHR ''/'' # translate y" for x y
    by (simp add: translate_append translate_Cons punctuation_spacer_def)
  show ?thesis
    unfolding stages_def 1 2 3 4 by simp
qed

lemma join_split_hd:
  "t \<noteq> [] \<Longrightarrow> \<not> isspace (hd t) \<Longrightarrow>
   str_join (str_split t) \<noteq> [] \<and> hd (str_join (str_split t)) = hd t"
  by (cases t) (auto simp: join_split_letter)

lemma join_split_last:
  "t \<noteq> [] \<Longrightarrow> \<not> isspace (last t) \<Longrightarrow> last (str_join (str_split t)) = last t"
proof (induction t)
  case Nil
  then show ?case by simp
next
  case (Cons c cs)
  show ?case
  proof (cases "cs = []")
    case True
    with Cons.prems show ?thesis by (simp add: join_split_letter)
  next
    case False
    then have l: "last (str_join (str_split cs)) = last cs" and n: "str_join (str_split cs) \<noteq> []"
      using Cons join_split_nonempty [of "last cs" cs] by auto
    show ?thesis
    proof (cases "isspace c")
      case True
      with False l show ?thesis by simp
    next
      case nsc: False
      with False l n show ?thesis by (simp add: join_split_letter)
    qed
  qed
qed

lemma join_split_append_word:
  "z \<noteq> [] \<Longrightarrow> \<not> isspace (hd z) \<Longrightarrow>
   str_join (str_split (x @ z))
     = str_join (str_split x)
       @ (if str_join (str_split x) \<noteq> [] \<and> isspace (last x) then '' '' else [])
       @ str_join (str_split z)"
proof (induction x)
  case Nil
  show ?case by simp
next
  case (Cons d ds)
  have nz: "str_join (str_split (ds @ z)) \<noteq> []"
    using Cons.prems join_split_nonempty [of "hd z" "ds @ z"] by auto
  have ih: "str_join (str_split (ds @ z))
     = str_join (str_split ds)
       @ (if str_join (str_split ds) \<noteq> [] \<and> isspace (last ds) then '' '' else [])
       @ str_join (str_split z)"
    using Cons by simp
  show ?case
  proof (cases "isspace d")
    case True
    show ?thesis
    proof (cases "ds = []")
      case e: True
      with True show ?thesis by simp
    next
      case False
      with True ih show ?thesis by simp
    qed
  next
    case nsd: False
    show ?thesis
    proof (cases "ds = []")
      case True
      with nsd Cons.prems show ?thesis by (simp add: join_split_letter)
    next
      case ne: False
      show ?thesis
      proof (cases "isspace (hd ds)")
        case True
        have "str_join (str_split (d # ds @ z)) = d # CHR '' '' # str_join (str_split (ds @ z))"
          using nsd ne True nz by (simp add: join_split_letter)
        moreover have "str_join (str_split (d # ds))
            = d # (if str_join (str_split ds) = [] then [] else CHR '' '' # str_join (str_split ds))"
          using nsd ne True by (simp add: join_split_letter)
        moreover have "str_join (str_split ds) = [] \<Longrightarrow> isspace (last ds)"
          using ne by (auto simp: join_split_eq_Nil str_split_eq_Nil)
        ultimately show ?thesis
          using ih ne by auto
      next
        case nsp: False
        have "str_join (str_split (d # ds @ z)) = d # str_join (str_split (ds @ z))"
          using nsd ne nsp by (simp add: join_split_letter)
        moreover have "str_join (str_split (d # ds)) = d # str_join (str_split ds)"
          using nsd ne nsp by (simp add: join_split_letter)
        moreover have "str_join (str_split ds) \<noteq> []"
          using ne nsp join_split_hd [of ds] by simp
        ultimately show ?thesis
          using ih ne by simp
      qed
    qed
  qed
qed

lemma join_split_around:
  assumes "\<not> isspace c"
  shows "str_join (str_split (x @ c # y))
     = str_join (str_split x)
       @ (if str_join (str_split x) \<noteq> [] \<and> isspace (last x) then '' '' else [])
       @ c # (if str_join (str_split y) \<noteq> [] \<and> isspace (hd y) then '' '' else [])
       @ str_join (str_split y)"
proof -
  have "str_join (str_split (c # y))
      = c # (if str_join (str_split y) \<noteq> [] \<and> isspace (hd y) then '' '' else [])
        @ str_join (str_split y)"
    using assms by (cases "y = []") (auto simp: join_split_letter)
  then show ?thesis
    using join_split_append_word [of "c # y" x] assms by simp
qed

lemma translate_last_space:
  assumes "t \<noteq> []"
  shows "isspace (last (translate t)) \<longleftrightarrow> isspace (last t) \<or> last t = CHR ''.'' \<or> last t = CHR '',''"
proof -
  have t: "translate t = translate (butlast t) @ punctuation_spacer (last t)"
    using assms translate_append [of "butlast t" "[last t]"]
    by (simp add: translate_Cons)
  show ?thesis
    unfolding t by (auto simp: punctuation_spacer_def)
qed

lemma stages_last_space:
  assumes "a \<noteq> []"
  shows "isspace (last (stages a)) \<longleftrightarrow> isspace (last a) \<or> last a = CHR ''.'' \<or> last a = CHR '',''"
proof -
  let ?y = "replace_literal ''..'' ''.'' (sub_slash False (replace_literal ''and/or'' ''or'' (lower a)))"
  have y: "?y \<noteq> []" "last ?y = lower_char (last a)"
    using assms by (simp_all add: replace_dots_last sub_slash_last replace_andor_last lower_last)
  show ?thesis
    unfolding stages_def translate_last_space [OF y(1)] y(2) by simp
qed

lemma stages_hd:
  assumes "b \<noteq> []"
  shows "hd (stages b) = (if prefix ''and/or'' (lower b) then CHR ''o'' else lower_char (hd b))"
proof -
  let ?x = "replace_literal ''and/or'' ''or'' (lower b)"
  have x: "?x \<noteq> []" "hd ?x = (if prefix ''and/or'' (lower b) then CHR ''o'' else lower_char (hd b))"
    using assms by (simp_all add: replace_literal_hd lower_hd)
  have "hd (stages b) = hd (replace_literal ''..'' ''.'' (sub_slash False ?x))"
    unfolding stages_def using x(1) by (simp add: translate_hd)
  also have "\<dots> = hd (sub_slash False ?x)"
    using x(1) by (simp add: replace_dots_hd)
  also have "\<dots> = hd ?x"
    using x(1) by (simp add: sub_slash_hd)
  finally show ?thesis
    using x(2) by simp
qed

lemma stages_hd_space:
  assumes "b \<noteq> []"
  shows "isspace (hd (stages b)) \<longleftrightarrow> isspace (hd b)"
proof (cases "prefix ''and/or'' (lower b)")
  case True
  then obtain r where "lower b = ''and/or'' @ r" by (auto simp: prefix_def)
  then have "hd (lower b) = CHR ''a''" by simp
  then have "lower_char (hd b) = CHR ''a''"
    using assms by (simp add: lower_hd)
  then have "\<not> isspace (hd b)"
    using isspace_lower_char [of "hd b"] by (simp add: isspace_def)
  with True assms show ?thesis by (simp add: stages_hd)
next
  case False
  with assms show ?thesis by (simp add: stages_hd)
qed

lemma clean_eq_Nil_imp: "a = [] \<Longrightarrow> clean a = []"
  by (simp add: clean_stages stages_def lower_def)

lemma clean_unflanked_slash:
  assumes "\<not> (a \<noteq> [] \<and> ascii_letter (lower_char (last a)) \<and> b \<noteq> [] \<and> ascii_letter (lower_char (hd b)))"
  shows "clean (a @ ''/'' @ b)
     = clean a
       @ (if clean a \<noteq> [] \<and> (isspace (last a) \<or> last a = CHR ''.'' \<or> last a = CHR '','')
          then '' '' else [])
       @ ''/''
       @ (if clean b \<noteq> [] \<and> isspace (hd b) then '' '' else [])
       @ clean b"
proof -
  have s: "stages (a @ ''/'' @ b) = stages a @ CHR ''/'' # stages b"
    using assms stages_unflanked_slash [of a b] by simp
  have l: "isspace (last (stages a)) \<longleftrightarrow> isspace (last a) \<or> last a = CHR ''.'' \<or> last a = CHR '',''"
    if "clean a \<noteq> []"
    using that clean_eq_Nil_imp [of a] by (intro stages_last_space) auto
  have h: "isspace (hd (stages b)) \<longleftrightarrow> isspace (hd b)" if "clean b \<noteq> []"
    using that clean_eq_Nil_imp [of b] by (intro stages_hd_space) auto
  have "clean (a @ ''/'' @ b)
     = clean a @ (if clean a \<noteq> [] \<and> isspace (last (stages a)) then '' '' else [])
       @ CHR ''/'' # (if clean b \<noteq> [] \<and> isspace (hd (stages b)) then '' '' else []) @ clean b"
    unfolding clean_stages s by (rule join_split_around) simp
  then show ?thesis
    using l h by auto
qed

lemma clean_last_letter:
  assumes "ascii_letter u"
  shows "last (clean (a @ [u])) = lower_char u"
proof -
  have l: "last (stages (a @ [u])) = lower_char u"
    using stages_last_letter [of "a @ [u]"] assms by simp
  moreover have "\<not> isspace (lower_char u)"
    using assms isspace_not_letter [of "lower_char u"] by auto
  ultimately show ?thesis
    unfolding clean_stages using join_split_last [of "stages (a @ [u])"] by simp
qed

lemma clean_hd_letter:
  assumes "ascii_letter v"
  shows "hd (clean (v # b)) = (if prefix ''and/or'' (lower (v # b)) then CHR ''o'' else lower_char v)"
proof -
  have "\<not> isspace (hd (stages (v # b)))"
    using stages_hd_letter [of "v # b"] assms isspace_not_letter by auto
  then have "hd (clean (v # b)) = hd (stages (v # b))"
    unfolding clean_stages using join_split_hd [of "stages (v # b)"] by simp
  then show ?thesis
    using stages_hd [of "v # b"] by simp
qed

text \<open>
  Claim C5, amended: a slash whose neighbours are both ASCII letters once the string is
  lowercased, and which is not the slash of an occurrence of \<open>and/or\<close>, becomes \<open>or\<close> with
  a space on each side, between the cleaned text before it and the cleaned text after it.
  The letter before the slash is kept, lowercased, as the last character of the left
  part; the letter after it is kept as the first character of the right part unless it
  begins an occurrence of \<open>and/or\<close>, which has become \<open>or\<close>. Any other slash is left
  unchanged: the output is the cleaned left part, the slash and the cleaned right part,
  with a space before the slash where the left part ends in whitespace, a period or a
  comma, and a space after it where the right part begins with whitespace.
\<close>

theorem clean_slash:
  "(ascii_letter (lower_char u) \<and> ascii_letter (lower_char v)
      \<and> \<not> (suffix ''and'' (lower (a @ [u])) \<and> prefix ''or'' (lower (v # b)))
     \<longrightarrow> clean (a @ [u] @ ''/'' @ [v] @ b) = clean (a @ [u]) @ '' or '' @ clean (v # b)
        \<and> last (clean (a @ [u])) = lower_char u
        \<and> hd (clean (v # b))
            = (if prefix ''and/or'' (lower (v # b)) then CHR ''o'' else lower_char v))
   \<and> (\<not> (a \<noteq> [] \<and> ascii_letter (lower_char (last a))
          \<and> b \<noteq> [] \<and> ascii_letter (lower_char (hd b)))
     \<longrightarrow> clean (a @ ''/'' @ b)
         = clean a
           @ (if clean a \<noteq> [] \<and> (isspace (last a) \<or> last a = CHR ''.'' \<or> last a = CHR '','')
              then '' '' else [])
           @ ''/''
           @ (if clean b \<noteq> [] \<and> isspace (hd b) then '' '' else [])
           @ clean b)"
proof (intro conjI impI)
  assume h: "ascii_letter (lower_char u) \<and> ascii_letter (lower_char v)
      \<and> \<not> (suffix ''and'' (lower (a @ [u])) \<and> prefix ''or'' (lower (v # b)))"
  then have uv: "ascii_letter u" "ascii_letter v" by simp_all
  have n: "clean (a @ [u]) \<noteq> []" "clean (v # b) \<noteq> []"
    using uv clean_nonempty_last [of "a @ [u]"] clean_nonempty_hd [of "v # b"] by simp_all
  have s: "stages (a @ [u] @ ''/'' @ [v] @ b) = stages (a @ [u]) @ '' or '' @ stages (v # b)"
    using h uv by (intro stages_flanked_slash) simp_all
  show "clean (a @ [u] @ ''/'' @ [v] @ b) = clean (a @ [u]) @ '' or '' @ clean (v # b)"
    using n unfolding clean_stages s by (rule join_split_or)
  show "last (clean (a @ [u])) = lower_char u"
    using uv(1) by (rule clean_last_letter)
  show "hd (clean (v # b)) = (if prefix ''and/or'' (lower (v # b)) then CHR ''o'' else lower_char v)"
    using uv(2) by (rule clean_hd_letter)
next
  assume "\<not> (a \<noteq> [] \<and> ascii_letter (lower_char (last a))
          \<and> b \<noteq> [] \<and> ascii_letter (lower_char (hd b)))"
  then show "clean (a @ ''/'' @ b)
         = clean a
           @ (if clean a \<noteq> [] \<and> (isspace (last a) \<or> last a = CHR ''.'' \<or> last a = CHR '','')
              then '' '' else [])
           @ ''/''
           @ (if clean b \<noteq> [] \<and> isspace (hd b) then '' '' else [])
           @ clean b"
    by (rule clean_unflanked_slash)
qed

text \<open>
  Claim C5 as stated fails twice. The slash of \<open>and/or\<close> stands between two letters, yet
  the output is \<open>or\<close> alone and not \<open>and or or\<close>. And a slash between two letters outside
  \<open>a\<close> to \<open>z\<close>, here the letter with code point 233, is not replaced.
\<close>

theorem clean_slash_counterexample:
  "clean ''and/or'' = ''or''
   \<and> clean ''and/or'' \<noteq> clean ''and'' @ '' or '' @ clean ''or''
   \<and> clean [CHR 0xE9, CHR ''/'', CHR 0xE9] = [CHR 0xE9, CHR ''/'', CHR 0xE9]"
  by code_simp

theorem clean_slash_witness:
  "clean (''tomato'' @ [CHR ''s''] @ ''/'' @ [CHR ''T''] @ ''omatoes'') = ''tomatos or tomatoes''
   \<and> clean ([] @ [CHR ''x''] @ ''/'' @ [CHR ''a''] @ ''nd/or'') = ''x or or''
   \<and> hd (clean (CHR ''a'' # ''nd/or'')) = CHR ''o''
   \<and> clean (''1.'' @ ''/'' @ '' 2'') = ''1. / 2''"
proof -
  have 1: "ascii_letter (lower_char CHR ''s'') \<and> ascii_letter (lower_char CHR ''T'')
      \<and> \<not> (suffix ''and'' (lower (''tomato'' @ [CHR ''s''])) \<and> prefix ''or'' (lower (CHR ''T'' # ''omatoes'')))"
    by code_simp
  have 2: "ascii_letter (lower_char CHR ''x'') \<and> ascii_letter (lower_char CHR ''a'')
      \<and> \<not> (suffix ''and'' (lower ([] @ [CHR ''x''])) \<and> prefix ''or'' (lower (CHR ''a'' # ''nd/or'')))"
    by code_simp
  have 3: "\<not> (''1.'' \<noteq> [] \<and> ascii_letter (lower_char (last ''1.''))
      \<and> '' 2'' \<noteq> [] \<and> ascii_letter (lower_char (hd '' 2'')))"
    by code_simp
  have e: "clean (''tomato'' @ [CHR ''s'']) = ''tomatos''" "clean (CHR ''T'' # ''omatoes'') = ''tomatoes''"
    "clean ([] @ [CHR ''x'']) = ''x''" "clean (CHR ''a'' # ''nd/or'') = ''or''"
    "clean ''1.'' = ''1.''" "clean '' 2'' = ''2''"
    by code_simp+
  have p: "prefix ''and/or'' (lower (CHR ''a'' # ''nd/or''))"
    by code_simp
  have s: "isspace (hd '' 2'')" "last ''1.'' = CHR ''.''"
    by (simp_all add: isspace_def)
  from clean_slash [of "CHR ''s''" "CHR ''T''" "''tomato''" "''omatoes''", THEN conjunct1, THEN mp, OF 1]
  have a: "clean (''tomato'' @ [CHR ''s''] @ ''/'' @ [CHR ''T''] @ ''omatoes'') = ''tomatos or tomatoes''"
    unfolding e by simp
  from clean_slash [of "CHR ''x''" "CHR ''a''" "[]" "''nd/or''", THEN conjunct1, THEN mp, OF 2]
  have b: "clean ([] @ [CHR ''x''] @ ''/'' @ [CHR ''a''] @ ''nd/or'') = ''x or or''"
    and c: "hd (clean (CHR ''a'' # ''nd/or'')) = CHR ''o''"
    using p unfolding e(3) by (simp_all add: e(4))
  have "clean (''1.'' @ ''/'' @ '' 2'')
      = clean ''1.''
        @ (if clean ''1.'' \<noteq> [] \<and> (isspace (last ''1.'') \<or> last ''1.'' = CHR ''.'' \<or> last ''1.'' = CHR '','')
           then '' '' else [])
        @ ''/''
        @ (if clean '' 2'' \<noteq> [] \<and> isspace (hd '' 2'') then '' '' else [])
        @ clean '' 2''"
    by (rule clean_slash [THEN conjunct2, THEN mp, OF 3])
  then have d: "clean (''1.'' @ ''/'' @ '' 2'') = ''1. / 2''"
    unfolding e using s by simp
  from a b c d show ?thesis by blast
qed

subsection \<open>Runs of periods\<close>

lemma dots_across:
  "prefix ''..'' (x @ z) \<Longrightarrow> prefix ''..'' x \<or> (x \<noteq> [] \<and> last x = CHR ''.'') \<or> x = []"
  by (auto simp: prefix_append Cons_eq_append_conv prefix_Cons)

lemma replace_dots_append:
  assumes "x = [] \<or> last x \<noteq> CHR ''.''"
  shows "replace_literal ''..'' ''.'' (x @ z)
     = replace_literal ''..'' ''.'' x @ replace_literal ''..'' ''.'' z"
proof (rule replace_literal_append)
  fix x' :: string
  assume x': "x' \<noteq> []" "suffix x' x" "prefix ''..'' (x' @ z)"
  then have "last x' = last x" "x \<noteq> []"
    by (auto simp: suffix_def)
  with assms x' dots_across [of x' z] show "prefix ''..'' x'"
    by auto
qed

lemma replace_dots_run:
  "y = [] \<or> hd y \<noteq> CHR ''.'' \<Longrightarrow>
   replace_literal ''..'' ''.'' (replicate n CHR ''.'' @ y)
     = replicate ((n + 1) div 2) CHR ''.'' @ replace_literal ''..'' ''.'' y"
proof (induction n rule: induct_nat_012)
  case 0
  then show ?case by simp
next
  case 1
  then have "\<not> prefix ''..'' (CHR ''.'' # y)"
    by (cases y) auto
  then show ?case
    by (simp add: replace_literal_no_match)
next
  case (ge2 n)
  have "replace_literal ''..'' ''.'' (''..'' @ (replicate n CHR ''.'' @ y))
      = ''.'' @ replace_literal ''..'' ''.'' (replicate n CHR ''.'' @ y)"
    by (rule replace_literal_match) simp
  with ge2 show ?case by simp
qed

lemma count_list_replicate: "count_list (replicate k c) c = k"
  by (induction k) auto

lemma lower_dots: "lower (replicate n CHR ''.'') = replicate n CHR ''.''"
  by (simp add: lower_def lower_char_def)

lemma translate_count_dot:
  "count_list (translate t) CHR ''.'' = count_list t CHR ''.''"
  by (induction t) (auto simp: translate_Cons punctuation_spacer_def)

lemma join_split_count:
  "\<not> isspace c \<Longrightarrow> count_list (str_join (str_split t)) c = count_list t c"
proof (induction t)
  case Nil
  show ?case by simp
next
  case (Cons d ds)
  then show ?case by (cases "isspace d") (auto simp: join_split_letter)
qed

lemma clean_count_dot:
  "count_list (clean s) CHR ''.''
     = count_list (replace_literal ''..'' ''.'' (sub_slash False
         (replace_literal ''and/or'' ''or'' (lower s)))) CHR ''.''"
  by (simp add: clean_def join_split_count translate_count_dot)

lemma clean_period_run_aux:
  assumes n: "1 \<le> n" and a: "a = [] \<or> last a \<noteq> CHR ''.''" and b: "b = [] \<or> hd b \<noteq> CHR ''.''"
  shows "count_list (clean (a @ replicate n CHR ''.'' @ b)) CHR ''.''
     = count_list (clean a) CHR ''.'' + (n + 1) div 2 + count_list (clean b) CHR ''.''"
proof -
  let ?d = "replicate n CHR ''.''"
  let ?A = "sub_slash False (replace_literal ''and/or'' ''or'' (lower a))"
  let ?B = "sub_slash False (replace_literal ''and/or'' ''or'' (lower b))"
  have d: "?d \<noteq> []" using n by auto
  have 1: "replace_literal ''and/or'' ''or'' (lower a @ ?d @ lower b)
      = replace_literal ''and/or'' ''or'' (lower a) @ ?d @ replace_literal ''and/or'' ''or'' (lower b)"
    by (rule replace_literal_separators [OF d]) simp
  have 2: "sub_slash False (x @ ?d @ y) = sub_slash False x @ ?d @ sub_slash False y" for x y
    by (rule sub_slash_separators [OF d]) simp
  have A: "?A = [] \<or> last ?A \<noteq> CHR ''.''"
    using a by (cases "a = []") (simp_all add: sub_slash_last replace_andor_last lower_last)
  have B: "?B = [] \<or> hd ?B \<noteq> CHR ''.''"
    using b by (cases "b = []") (simp_all add: sub_slash_hd replace_andor_hd_dot lower_hd)
  have "replace_literal ''..'' ''.'' (?A @ ?d @ ?B)
      = replace_literal ''..'' ''.'' ?A @ replicate ((n + 1) div 2) CHR ''.'' @ replace_literal ''..'' ''.'' ?B"
    unfolding replace_dots_append [OF A] replace_dots_run [OF B] ..
  then show ?thesis
    unfolding clean_count_dot lower_append lower_dots 1 2 by (simp add: count_list_replicate)
qed

text \<open>
  Claim C2, amended: \<open>replace("..", ".")\<close> replaces each pair of periods once, from the
  left, so a maximal run of \<open>n\<close> periods, \<open>n\<close> at least two, contributes \<open>(n + 1) div 2\<close>
  periods to the output: one for a run of two, two for a run of three or four.
\<close>

theorem clean_period_run:
  assumes "2 \<le> n" "a = [] \<or> last a \<noteq> CHR ''.''" "b = [] \<or> hd b \<noteq> CHR ''.''"
  shows "count_list (clean (a @ replicate n CHR ''.'' @ b)) CHR ''.''
     = count_list (clean a) CHR ''.'' + (n + 1) div 2 + count_list (clean b) CHR ''.''"
  using assms by (intro clean_period_run_aux) simp_all

text \<open>
  Claim C2 as stated fails: a run of four periods leaves two periods in the output.
\<close>

theorem clean_period_run_counterexample:
  "clean ''....'' = ''. .'' \<and> count_list (clean ''....'') CHR ''.'' = 2"
  by code_simp

theorem clean_period_run_witness:
  "count_list (clean (''No. x'' @ replicate 3 CHR ''.'' @ '' Y'')) CHR ''.'' = 1 + 2 + 0
   \<and> clean (''No. x'' @ replicate 3 CHR ''.'' @ '' Y'') = ''no. x. . y''"
proof -
  have 1: "(2::nat) \<le> 3" by simp
  have 2: "''No. x'' = [] \<or> last ''No. x'' \<noteq> CHR ''.''" by simp
  have 3: "'' Y'' = [] \<or> hd '' Y'' \<noteq> CHR ''.''" by simp
  have 4: "count_list (clean ''No. x'') CHR ''.'' = 1" "count_list (clean '' Y'') CHR ''.'' = 0"
    "((3::nat) + 1) div 2 = 2"
    by code_simp+
  have 5: "clean (''No. x'' @ replicate 3 CHR ''.'' @ '' Y'') = ''no. x. . y''"
    by code_simp
  from clean_period_run [OF 1 2 3] 5 show ?thesis
    unfolding 4 by simp
qed

subsection \<open>Idempotence\<close>

lemma sub_slash_lookahead:
  "(case sub_slash False cs of [] \<Rightarrow> False | d # _ \<Rightarrow> ascii_letter d)
     = (case cs of [] \<Rightarrow> False | d # _ \<Rightarrow> ascii_letter d)"
  by (cases cs) auto

lemma flank_sub_slash: "\<not> flank p (sub_slash p x)"
proof (induction x arbitrary: p)
  case Nil
  show ?case by simp
next
  case (Cons c cs)
  show ?case
  proof (cases "c = CHR ''/'' \<and> p \<and> (case cs of [] \<Rightarrow> False | d # _ \<Rightarrow> ascii_letter d)")
    case True
    with Cons [of False] show ?thesis by simp
  next
    case False
    show ?thesis
    proof (cases "c = CHR ''/''")
      case True
      with False Cons [of False] show ?thesis
        by (auto simp: sub_slash_lookahead)
    next
      case nc: False
      with Cons [of "ascii_letter c"] show ?thesis by simp
    qed
  qed
qed

lemma sub_slash_no_flank: "\<not> flank p x \<Longrightarrow> sub_slash p x = x"
  by (induction x arbitrary: p) auto

lemma replace_literal_no_occurrence:
  "(\<And>x'. suffix x' t \<Longrightarrow> \<not> prefix pat x') \<Longrightarrow> replace_literal pat rep t = t"
proof (induction t)
  case Nil
  show ?case by simp
next
  case (Cons c cs)
  have "\<not> prefix pat (c # cs)"
    using Cons.prems [of "c # cs"] by simp
  moreover have "replace_literal pat rep cs = cs"
    using Cons.prems by (intro Cons.IH) (auto intro: suffix_ConsI)
  ultimately show ?case
    by (simp add: replace_literal_no_match)
qed

lemma flank_andor: "flank p (u @ ''and/or'' @ w)"
  by (induction u arbitrary: p) simp_all

lemma replace_andor_no_flank:
  assumes "\<not> flank p t"
  shows "replace_literal ''and/or'' ''or'' t = t"
proof (rule replace_literal_no_occurrence)
  fix x' assume "suffix x' t"
  then obtain u where u: "t = u @ x'" by (auto simp: suffix_def)
  show "\<not> prefix ''and/or'' x'"
  proof
    assume "prefix ''and/or'' x'"
    then obtain w where "x' = ''and/or'' @ w" by (auto simp: prefix_def)
    with u assms flank_andor [of p u w] show False by simp
  qed
qed

lemma punct_spaced_dots: "\<not> punct_spaced (u @ ''..'' @ w)"
  by (induction u) (simp_all add: punct_spaced_Cons)

lemma replace_dots_punct_spaced:
  assumes "punct_spaced t"
  shows "replace_literal ''..'' ''.'' t = t"
proof (rule replace_literal_no_occurrence)
  fix x' assume "suffix x' t"
  then obtain u where u: "t = u @ x'" by (auto simp: suffix_def)
  show "\<not> prefix ''..'' x'"
  proof
    assume "prefix ''..'' x'"
    then obtain w where "x' = ''..'' @ w" by (auto simp: prefix_def)
    with u assms punct_spaced_dots [of u w] show False by simp
  qed
qed

lemma lookahead_hd:
  "y \<noteq> [] \<Longrightarrow> z \<noteq> [] \<Longrightarrow> hd y = hd z \<Longrightarrow>
   (case y of [] \<Rightarrow> False | d # _ \<Rightarrow> ascii_letter d) = (case z of [] \<Rightarrow> False | d # _ \<Rightarrow> ascii_letter d)"
  by (cases y; cases z) auto

lemma replace_dots_lookahead:
  "(case replace_literal ''..'' ''.'' y of [] \<Rightarrow> False | d # _ \<Rightarrow> ascii_letter d)
     = (case y of [] \<Rightarrow> False | d # _ \<Rightarrow> ascii_letter d)"
proof (cases "y = []")
  case True
  then show ?thesis by simp
next
  case False
  then show ?thesis by (intro lookahead_hd) (simp_all add: replace_dots_hd)
qed

lemma translate_lookahead:
  "(case translate y of [] \<Rightarrow> False | d # _ \<Rightarrow> ascii_letter d)
     = (case y of [] \<Rightarrow> False | d # _ \<Rightarrow> ascii_letter d)"
proof (cases "y = []")
  case True
  then show ?thesis by simp
next
  case False
  then show ?thesis by (intro lookahead_hd) (simp_all add: translate_hd)
qed

lemma flank_replace_dots: "flank p (replace_literal ''..'' ''.'' x) = flank p x"
proof (induction x arbitrary: p rule: length_induct)
  case (1 x)
  show ?case
  proof (cases x)
    case Nil
    then show ?thesis by simp
  next
    case (Cons c cs)
    show ?thesis
    proof (cases "prefix ''..'' x")
      case True
      then obtain r where r: "x = ''..'' @ r" by (auto simp: prefix_def)
      have "replace_literal ''..'' ''.'' (''..'' @ r) = ''.'' @ replace_literal ''..'' ''.'' r"
        by (rule replace_literal_match) simp
      moreover have "flank False (replace_literal ''..'' ''.'' r) = flank False r"
        using 1 r by simp
      ultimately show ?thesis using r by simp
    next
      case False
      then have "replace_literal ''..'' ''.'' x = c # replace_literal ''..'' ''.'' cs"
        using Cons by (simp add: replace_literal_no_match)
      moreover have "flank q (replace_literal ''..'' ''.'' cs) = flank q cs" for q
        using 1 Cons by simp
      ultimately show ?thesis
        using Cons by (simp add: replace_dots_lookahead)
    qed
  qed
qed

lemma flank_translate: "flank p (translate x) = flank p x"
proof (induction x arbitrary: p)
  case Nil
  show ?case by simp
next
  case (Cons c cs)
  then show ?case
    by (auto simp: translate_Cons punctuation_spacer_def translate_lookahead)
qed

lemma flank_join_split:
  "flank (p \<and> t \<noteq> [] \<and> \<not> isspace (hd t)) (str_join (str_split t)) = flank p t"
proof (induction t arbitrary: p)
  case Nil
  show ?case by simp
next
  case (Cons c cs)
  show ?case
  proof (cases "isspace c")
    case True
    then have "\<not> ascii_letter c" "c \<noteq> CHR ''/''"
      using isspace_facts by blast+
    with True Cons [of False] show ?thesis by simp
  next
    case False
    show ?thesis
    proof (cases "cs = []")
      case True
      with False show ?thesis by (simp add: join_split_letter)
    next
      case ne: False
      show ?thesis
      proof (cases "isspace (hd cs)")
        case True
        then have la: "\<not> (case cs of [] \<Rightarrow> False | d # _ \<Rightarrow> ascii_letter d)"
          using ne isspace_not_letter by (cases cs) auto
        have "flank (ascii_letter c) cs = flank False (str_join (str_split cs))"
          using Cons [of "ascii_letter c"] True by simp
        with False ne True la show ?thesis
          by (simp add: join_split_letter)
      next
        case nsp: False
        have "(case str_join (str_split cs) of [] \<Rightarrow> False | d # _ \<Rightarrow> ascii_letter d)
            = (case cs of [] \<Rightarrow> False | d # _ \<Rightarrow> ascii_letter d)"
          using ne nsp join_split_hd [of cs] by (intro lookahead_hd) simp_all
        moreover have "flank (ascii_letter c) (str_join (str_split cs)) = flank (ascii_letter c) cs"
          using Cons [of "ascii_letter c"] ne nsp by simp
        ultimately show ?thesis
          using False ne nsp by (simp add: join_split_letter)
      qed
    qed
  qed
qed

lemma clean_no_flank: "\<not> flank False (clean s)"
proof -
  have "flank False (clean s) = flank False (stages s)"
    unfolding clean_stages using flank_join_split [of False "stages s"] by simp
  then show ?thesis
    by (simp add: stages_def flank_translate flank_replace_dots flank_sub_slash)
qed

lemma set_replace_literal: "set (replace_literal pat rep x) \<subseteq> set x \<union> set rep"
proof (induction pat rep x rule: replace_literal.induct)
  case (1 pat rep)
  show ?case by simp
next
  case (2 pat rep c cs)
  show ?case
  proof (cases "pat \<noteq> [] \<and> prefix pat (c # cs)")
    case True
    have "set (drop (length pat) (c # cs)) \<subseteq> set (c # cs)"
      by (rule set_drop_subset)
    with True "2.IH"(1) show ?thesis
      by (auto simp: replace_literal.simps(2))
  next
    case False
    with "2.IH"(2) show ?thesis
      by (auto simp: replace_literal.simps(2))
  qed
qed

lemma set_sub_slash: "set (sub_slash p x) \<subseteq> set x \<union> set '' or ''"
  by (induction x arbitrary: p) (auto split: if_splits)

lemma set_translate: "set (translate x) \<subseteq> set x \<union> {CHR '' ''}"
  by (induction x) (auto simp: translate_Cons punctuation_spacer_def split: if_splits)

lemma set_join_split: "set (str_join (str_split t)) \<subseteq> set t \<union> {CHR '' ''}"
proof (induction t)
  case Nil
  show ?case by simp
next
  case (Cons c cs)
  then show ?case
    by (cases "isspace c") (auto simp: join_split_letter split: if_splits)
qed

lemma set_clean: "set (clean s) \<subseteq> set (lower s) \<union> set '' or.''"
proof -
  have "set (clean s) \<subseteq> set (stages s) \<union> {CHR '' ''}"
    unfolding clean_stages by (rule set_join_split)
  also have "set (stages s) \<subseteq> set (lower s) \<union> set '' or.''"
    unfolding stages_def
    using set_translate [of "replace_literal ''..'' ''.'' (sub_slash False (replace_literal ''and/or'' ''or'' (lower s)))"]
      set_replace_literal [of "''..''" "''.''" "sub_slash False (replace_literal ''and/or'' ''or'' (lower s))"]
      set_sub_slash [of False "replace_literal ''and/or'' ''or'' (lower s)"]
      set_replace_literal [of "''and/or''" "''or''" "lower s"]
    by auto
  finally show ?thesis by auto
qed

lemma lower_clean: "lower (clean s) = clean s"
proof -
  have "lower_char c = c" if "c \<in> set (clean s)" for c
  proof -
    from that set_clean [of s] have "c \<in> set (lower s) \<or> c \<in> set '' or.''"
      by auto
    then show ?thesis
    proof
      assume "c \<in> set (lower s)"
      then show ?thesis by (auto simp: lower_def)
    next
      assume "c \<in> set '' or.''"
      then show ?thesis by (auto simp: lower_char_def)
    qed
  qed
  then show ?thesis
    unfolding lower_def by (intro map_idI)
qed

lemma tight_hd_space:
  "tight cs \<Longrightarrow> cs \<noteq> [] \<Longrightarrow> isspace (hd cs) \<Longrightarrow> hd cs = CHR '' '' \<and> tl cs \<noteq> []"
  by (cases cs) (auto simp: tight_Cons)

lemma tight_tl: "tight (c # cs) \<Longrightarrow> tight cs"
  by (cases cs) (auto simp: tight_Cons)

lemma punct_spaced_tl: "punct_spaced (c # cs) \<Longrightarrow> punct_spaced cs"
  by (simp add: punct_spaced_Cons)

lemma join_split_translate_fixed:
  "tight t \<Longrightarrow> punct_spaced t \<Longrightarrow>
   str_join (str_split (translate t)) = (if t \<noteq> [] \<and> isspace (hd t) then tl t else t)"
proof (induction t)
  case Nil
  show ?case by simp
next
  case (Cons c cs)
  have ih: "str_join (str_split (translate cs)) = (if cs \<noteq> [] \<and> isspace (hd cs) then tl cs else cs)"
    using Cons by (intro Cons.IH) (auto dest: tight_tl punct_spaced_tl)
  have tc: "tight cs" using Cons.prems(1) by (rule tight_tl)
  show ?case
  proof (cases "isspace c")
    case True
    then have c: "c = CHR '' ''" "cs \<noteq> []" "\<not> isspace (hd cs)"
      using Cons.prems(1) by (auto simp: tight_Cons)
    then show ?thesis
      using ih by (simp add: translate_Cons punctuation_spacer_def)
  next
    case nsc: False
    show ?thesis
    proof (cases "c = CHR ''.'' \<or> c = CHR '',''")
      case True
      then have t: "translate (c # cs) = c # CHR '' '' # translate cs"
        by (auto simp: translate_Cons punctuation_spacer_def)
      have n: "str_join (str_split (c # CHR '' '' # translate cs))
          = c # (if str_join (str_split (translate cs)) = [] then []
                 else CHR '' '' # str_join (str_split (translate cs)))"
        using nsc by (simp add: join_split_letter)
      show ?thesis
      proof (cases "cs = []")
        case True
        then show ?thesis unfolding t n using nsc by simp
      next
        case ne: False
        then have "hd cs = CHR '' ''"
          using Cons.prems(2) True by (auto simp: punct_spaced_Cons)
        then obtain r where r: "cs = CHR '' '' # r" "r \<noteq> []"
          using tight_hd_space [OF tc ne] ne by (cases cs) auto
        then have "str_join (str_split (translate cs)) = r"
          using ih by simp
        then show ?thesis
          unfolding t n using nsc r by simp
      qed
    next
      case np: False
      then have t: "translate (c # cs) = c # translate cs"
        by (auto simp: translate_Cons punctuation_spacer_def)
      show ?thesis
      proof (cases "cs = []")
        case True
        then show ?thesis unfolding t using nsc by (simp add: join_split_letter)
      next
        case ne: False
        show ?thesis
        proof (cases "isspace (hd cs)")
          case True
          then obtain r where r: "cs = CHR '' '' # r" "r \<noteq> []"
            using tight_hd_space [OF tc ne] ne by (cases cs) auto
          then have "str_join (str_split (translate cs)) = r"
            using ih by simp
          with r nsc show ?thesis
            unfolding t by (simp add: join_split_letter translate_Cons punctuation_spacer_def)
        next
          case nsp: False
          with ne nsc show ?thesis
            unfolding t by (simp add: join_split_letter translate_hd ih)
        qed
      qed
    qed
  qed
qed

text \<open>
  Claim C10: \<open>clean\<close> is idempotent. Its output is lowercase, has no slash between two
  letters and therefore no \<open>and/or\<close>, has no two adjacent periods, has a space or the end
  of the string after each period and comma, and is in whitespace normal form, so that
  each of the six steps leaves it as it is.
\<close>

theorem clean_idempotent: "clean (clean s) = clean s"
proof -
  let ?t = "clean s"
  have nf: "\<not> flank False ?t" by (rule clean_no_flank)
  have ps: "punct_spaced ?t"
    unfolding clean_stages
    by (rule punct_spaced_join_split) (simp add: stages_def punct_spaced_translate)
  have ti: "tight ?t"
    unfolding clean_stages by (rule tight_join_split)
  have hd: "?t = [] \<or> \<not> isspace (hd ?t)"
    unfolding clean_stages using hd_join_split [of "stages s"] by blast
  have 1: "lower ?t = ?t" by (rule lower_clean)
  have 2: "replace_literal ''and/or'' ''or'' ?t = ?t"
    using nf by (rule replace_andor_no_flank)
  have 3: "sub_slash False ?t = ?t"
    using nf by (rule sub_slash_no_flank)
  have 4: "replace_literal ''..'' ''.'' ?t = ?t"
    using ps by (rule replace_dots_punct_spaced)
  have 5: "str_join (str_split (translate ?t)) = ?t"
    using join_split_translate_fixed [OF ti ps] hd by auto
  have "clean ?t = str_join (str_split (translate (replace_literal ''..'' ''.''
      (sub_slash False (replace_literal ''and/or'' ''or'' (lower ?t))))))"
    by (simp add: clean_def)
  then show ?thesis
    unfolding 1 2 3 4 5 .
qed

subsection \<open>The two definitions of \<open>clean\<close>\<close>

text \<open>
  Claim C7: the function \<open>clean\<close> of the text-cleaning notebook and the one written
  out again in the BioC and NegBio notebook return the same string on every input.
\<close>

theorem clean_negbio_eq_clean: "clean_negbio sentence = clean sentence"
  by (simp add: clean_negbio_def clean_def)

subsection \<open>Permutation importance of the notebook's figures\<close>

text \<open>
  Claim C1: with at least one shuffled dataset, the importance of a feature is the absolute
  difference between the baseline concordance index and the arithmetic mean of the indices
  of the shuffled datasets; for the figures of the notebook the mean is 0.6577 and the
  importance is 0.1605, exactly. The absolute value is taken of the difference to the
  mean, not of each difference: indices on both sides of the baseline cancel.
\<close>

theorem importance_notebook:
  "(perfs \<noteq> [] \<longrightarrow>
      importance perf perfs = Some \<bar>perf - sum_list perfs / of_nat (length perfs)\<bar>)
   \<and> mean [6749 / 10000, 6554 / 10000, 6428 / 10000] = Some (6577 / 10000)
   \<and> importance (8182 / 10000) [6749 / 10000, 6554 / 10000, 6428 / 10000] = Some (1605 / 10000)
   \<and> importance (1 / 2) [1 / 4, 3 / 4] = Some 0
   \<and> importance perf [] = None"
  by (simp add: importance_def mean_def)

theorem importance_notebook_witness:
  "importance 1 [1 / 2, 1 / 4] = Some (5 / 8)"
proof -
  have "[1 / 2, 1 / 4 :: rat] \<noteq> []" by simp
  with importance_notebook [of "[1 / 2, 1 / 4]" 1] show ?thesis by simp
qed

end
